theory Spec2Isabelle
  imports Main
begin

section \<open>Go strings as byte lists\<close>

text \<open>
  A Go \<^verbatim>\<open>string\<close> is a sequence of bytes; \<^typ>\<open>string\<close> is a list of 8-bit
  characters, so \<^const>\<open>length\<close> is Go's \<^verbatim>\<open>len\<close>. The functions of package
  \<^verbatim>\<open>strings\<close> that the program calls are written out here after the documentation
  of the Go standard library. All separators the program passes are non-empty literals.
\<close>

definition HasPrefix :: "string \<Rightarrow> string \<Rightarrow> bool" where
  "HasPrefix s p = (take (length p) s = p)"

definition HasSuffix :: "string \<Rightarrow> string \<Rightarrow> bool" where
  "HasSuffix s p = (length p \<le> length s \<and> drop (length s - length p) s = p)"

definition TrimPrefix :: "string \<Rightarrow> string \<Rightarrow> string" where
  "TrimPrefix s p = (if HasPrefix s p then drop (length p) s else s)"

definition TrimSuffix :: "string \<Rightarrow> string \<Rightarrow> string" where
  "TrimSuffix s p = (if HasSuffix s p then take (length s - length p) s else s)"

text \<open>\<^verbatim>\<open>strings.Index\<close>: the position of the first occurrence, \<^verbatim>\<open>-1\<close> as \<^const>\<open>None\<close>.\<close>

fun Index :: "string \<Rightarrow> string \<Rightarrow> nat option" where
  "Index [] sub = (if sub = [] then Some 0 else None)"
| "Index (c # cs) sub =
     (if HasPrefix (c # cs) sub then Some 0 else map_option Suc (Index cs sub))"

definition Contains :: "string \<Rightarrow> string \<Rightarrow> bool" where
  "Contains s sub = (Index s sub \<noteq> None)"

text \<open>
  \<^verbatim>\<open>strings.SplitN(s, sep, n)\<close> for \<^verbatim>\<open>n >= 0\<close> and a non-empty separator: at most
  \<^verbatim>\<open>n\<close> pieces, the last one the unsplit remainder; \<^verbatim>\<open>n = 0\<close> gives no piece.
\<close>

fun SplitN :: "string \<Rightarrow> string \<Rightarrow> nat \<Rightarrow> string list" where
  "SplitN s sep 0 = []"
| "SplitN s sep (Suc 0) = [s]"
| "SplitN s sep (Suc (Suc n)) =
     (case Index s sep of
        None \<Rightarrow> [s]
      | Some i \<Rightarrow> take i s # SplitN (drop (i + length sep) s) sep (Suc n))"

lemma HasPrefix_length: "HasPrefix s p \<Longrightarrow> length p \<le> length s"
proof -
  assume "HasPrefix s p"
  then have "length (take (length p) s) = length p" by (simp add: HasPrefix_def)
  then show ?thesis by simp
qed

lemma Index_bound: "Index s sub = Some i \<Longrightarrow> i + length sub \<le> length s"
proof (induction s arbitrary: i)
  case Nil
  then show ?case by (simp split: if_splits)
next
  case (Cons c cs)
  show ?case
  proof (cases "HasPrefix (c # cs) sub")
    case True
    then have "length sub \<le> length (c # cs)"
      by (rule HasPrefix_length)
    with True Cons.prems show ?thesis by simp
  next
    case False
    with Cons.prems obtain j where "Index cs sub = Some j" "i = Suc j" by auto
    with Cons.IH show ?thesis by simp
  qed
qed

text \<open>\<^verbatim>\<open>strings.Split(s, sep)\<close> for a non-empty separator: split at every occurrence.\<close>

function Split :: "string \<Rightarrow> string \<Rightarrow> string list" where
  "Split s sep =
     (case Index s sep of
        None \<Rightarrow> [s]
      | Some i \<Rightarrow> if sep = [] then [s] else take i s # Split (drop (i + length sep) s) sep)"
  by pat_completeness auto
termination
proof (relation "measure (\<lambda>(s, sep). length s)")
  show "wf (measure (\<lambda>(s, sep). length s))" by simp
next
  fix s sep :: string and i :: nat
  assume "Index s sep = Some i" "sep \<noteq> []"
  then have "i + length sep \<le> length s" "0 < length sep"
    by (auto dest: Index_bound)
  then have "length s - (i + length sep) < length s" by linarith
  then show "((drop (i + length sep) s, sep), (s, sep)) \<in> measure (\<lambda>(s, sep). length s)"
    by simp
qed

declare Split.simps [simp del]

text \<open>\<^verbatim>\<open>strings.ReplaceAll(s, old, new)\<close> for a non-empty \<^verbatim>\<open>old\<close>.\<close>

function ReplaceAll :: "string \<Rightarrow> string \<Rightarrow> string \<Rightarrow> string" where
  "ReplaceAll s old new =
     (case Index s old of
        None \<Rightarrow> s
      | Some i \<Rightarrow> if old = [] then s
                 else take i s @ new @ ReplaceAll (drop (i + length old) s) old new)"
  by pat_completeness auto
termination
proof (relation "measure (\<lambda>(s, old, new). length s)")
  show "wf (measure (\<lambda>(s, old, new). length s))" by simp
next
  fix s old new :: string and i :: nat
  assume "Index s old = Some i" "old \<noteq> []"
  then have "i + length old \<le> length s" "0 < length old"
    by (auto dest: Index_bound)
  then have "length s - (i + length old) < length s" by linarith
  then show "((drop (i + length old) s, old, new), (s, old, new))
      \<in> measure (\<lambda>(s, old, new). length s)"
    by simp
qed

declare ReplaceAll.simps [simp del]

text \<open>
  \<^verbatim>\<open>strings.TrimSpace\<close> removes leading and trailing white space as
  \<^verbatim>\<open>unicode.IsSpace\<close> defines it. On bytes these are the UTF-8 encodings of
  U+0009..U+000D, U+0020, U+0085, U+00A0, U+1680, U+2000..U+200A, U+2028, U+2029,
  U+202F, U+205F and U+3000.
\<close>

definition spaceRunes :: "string list" where
  "spaceRunes =
     [[CHR 0x09], [CHR 0x0A], [CHR 0x0B], [CHR 0x0C], [CHR 0x0D], [CHR 0x20],
      [CHR 0xC2, CHR 0x85], [CHR 0xC2, CHR 0xA0],
      [CHR 0xE1, CHR 0x9A, CHR 0x80],
      [CHR 0xE2, CHR 0x80, CHR 0x80], [CHR 0xE2, CHR 0x80, CHR 0x81],
      [CHR 0xE2, CHR 0x80, CHR 0x82], [CHR 0xE2, CHR 0x80, CHR 0x83],
      [CHR 0xE2, CHR 0x80, CHR 0x84], [CHR 0xE2, CHR 0x80, CHR 0x85],
      [CHR 0xE2, CHR 0x80, CHR 0x86], [CHR 0xE2, CHR 0x80, CHR 0x87],
      [CHR 0xE2, CHR 0x80, CHR 0x88], [CHR 0xE2, CHR 0x80, CHR 0x89],
      [CHR 0xE2, CHR 0x80, CHR 0x8A],
      [CHR 0xE2, CHR 0x80, CHR 0xA8], [CHR 0xE2, CHR 0x80, CHR 0xA9],
      [CHR 0xE2, CHR 0x80, CHR 0xAF],
      [CHR 0xE2, CHR 0x81, CHR 0x9F],
      [CHR 0xE3, CHR 0x80, CHR 0x80]]"

definition leadingSpace :: "string \<Rightarrow> string option" where
  "leadingSpace s = find (HasPrefix s) spaceRunes"

definition trailingSpace :: "string \<Rightarrow> string option" where
  "trailingSpace s = find (HasSuffix s) spaceRunes"

lemma spaceRunes_nonempty: "q \<in> set spaceRunes \<Longrightarrow> q \<noteq> []"
  by (auto simp: spaceRunes_def)

lemma leadingSpace_Some:
  "leadingSpace s = Some q \<Longrightarrow> q \<noteq> [] \<and> HasPrefix s q \<and> q \<in> set spaceRunes"
  unfolding leadingSpace_def
  by (metis find_Some_iff nth_mem spaceRunes_nonempty)

lemma trailingSpace_Some:
  "trailingSpace s = Some q \<Longrightarrow> q \<noteq> [] \<and> HasSuffix s q \<and> q \<in> set spaceRunes"
  unfolding trailingSpace_def
  by (metis find_Some_iff nth_mem spaceRunes_nonempty)

function TrimLeftSpace :: "string \<Rightarrow> string" where
  "TrimLeftSpace s =
     (case leadingSpace s of None \<Rightarrow> s | Some q \<Rightarrow> TrimLeftSpace (drop (length q) s))"
  by pat_completeness auto
termination
proof (relation "measure length")
  show "wf (measure length)" by simp
next
  fix s q :: string
  assume "leadingSpace s = Some q"
  then have "q \<noteq> []" "take (length q) s = q"
    by (auto dest: leadingSpace_Some simp: HasPrefix_def)
  then have "s \<noteq> []" by auto
  with \<open>q \<noteq> []\<close> show "(drop (length q) s, s) \<in> measure length" by simp
qed

function TrimRightSpace :: "string \<Rightarrow> string" where
  "TrimRightSpace s =
     (case trailingSpace s of
        None \<Rightarrow> s
      | Some q \<Rightarrow> TrimRightSpace (take (length s - length q) s))"
  by pat_completeness auto
termination
proof (relation "measure length")
  show "wf (measure length)" by simp
next
  fix s q :: string
  assume "trailingSpace s = Some q"
  then have "0 < length q" "length q \<le> length s"
    by (auto dest: trailingSpace_Some simp: HasSuffix_def)
  then have "length s - length q < length s" by linarith
  then show "(take (length s - length q) s, s) \<in> measure length" by simp
qed

declare TrimLeftSpace.simps [simp del] TrimRightSpace.simps [simp del]

definition TrimSpace :: "string \<Rightarrow> string" where
  "TrimSpace s = TrimRightSpace (TrimLeftSpace s)"



section \<open>Errors, panics and literal values\<close>

text \<open>
  A Go function returning \<^verbatim>\<open>(T, error)\<close> is a function into \<open>error + T\<close>. The
  errors of this package are built by \<^verbatim>\<open>errors.New\<close> and \<^verbatim>\<open>fmt.Errorf\<close> and
  carry only their message (\<open>%w\<close> and \<open>%s\<close> both insert the text). A run-time panic
  (a slice or index expression out of range) is not an error value: it unwinds the
  caller, and is kept apart as \<open>Panic\<close>.
\<close>

datatype error = Error string | Panic string

text \<open>The slice expression \<^verbatim>\<open>s[lo:hi]\<close>; Go panics unless \<open>0 \<le> lo \<le> hi \<le> len(s)\<close>.\<close>

definition slice :: "string \<Rightarrow> int \<Rightarrow> int \<Rightarrow> error + string" where
  "slice s lo hi =
     (if 0 \<le> lo \<and> lo \<le> hi \<and> hi \<le> int (length s)
      then Inr (take (nat hi - nat lo) (drop (nat lo) s))
      else Inl (Panic ''slice bounds out of range''))"

text \<open>
  The dynamic values a literal can denote (\<^verbatim>\<open>any\<close> holding a \<^verbatim>\<open>string\<close>,
  \<^verbatim>\<open>bool\<close>, \<^verbatim>\<open>[]int\<close>, \<^verbatim>\<open>int\<close> or \<^verbatim>\<open>float64\<close>). Floating point is not
  interpreted: \<open>'f\<close> stands for \<^verbatim>\<open>float64\<close>, and \<^verbatim>\<open>strconv.ParseFloat(_, 64)\<close>
  is the parameter \<open>pf\<close> of the parser (\<^const>\<open>None\<close> when it returns an error).
\<close>

datatype 'f literal =
    VString string
  | VBool bool
  | VInts "int list"
  | VInt int
  | VFloat 'f

type_synonym 'f Action = "string \<rightharpoonup> 'f literal"

record ActionResult =
  Success :: bool
  ShouldFinish :: bool
  Message :: string
  RequiresConfirmation :: bool

subsection \<open>strconv.Atoi\<close>

text \<open>
  \<^verbatim>\<open>strconv.Atoi\<close>: an optional sign, then one or more decimal digits, and the value
  must fit \<^verbatim>\<open>int\<close>, taken as 64 bits wide. Every other input is an error.
\<close>

definition isDigit :: "char \<Rightarrow> bool" where
  "isDigit c = (48 \<le> (of_char c :: nat) \<and> (of_char c :: nat) \<le> 57)"

definition digitVal :: "char \<Rightarrow> int" where
  "digitVal c = of_char c - 48"

definition digitsVal :: "string \<Rightarrow> int" where
  "digitsVal ds = foldl (\<lambda>n c. n * 10 + digitVal c) 0 ds"

definition Atoi :: "string \<Rightarrow> int option" where
  "Atoi s =
     (let neg = (s \<noteq> [] \<and> hd s = CHR ''-'');
          ds = (if s \<noteq> [] \<and> (hd s = CHR ''-'' \<or> hd s = CHR ''+'') then tl s else s)
      in if ds = [] \<or> \<not> list_all isDigit ds then None
         else let v = (if neg then - digitsVal ds else digitsVal ds)
              in if - (2 ^ 63) \<le> v \<and> v \<le> 2 ^ 63 - 1 then Some v else None)"

section \<open>phoneagent/helper/parse.go\<close>

subsection \<open>parseLiteral\<close>

text \<open>The loop over the pieces of an integer array, with \<^verbatim>\<open>result\<close> as accumulator.\<close>

fun parseLiteral_ints :: "string list \<Rightarrow> int list \<Rightarrow> error + int list" where
  "parseLiteral_ints [] result = Inr result"
| "parseLiteral_ints (p # ps) result =
     (case Atoi (TrimSpace p) of
        None \<Rightarrow> Inl (Error (''invalid int in array: '' @ p))
      | Some v \<Rightarrow> parseLiteral_ints ps (result @ [v]))"

definition parseLiteral :: "(string \<Rightarrow> 'f option) \<Rightarrow> string \<Rightarrow> error + 'f literal" where
  \<open>parseLiteral pf s =
     (if HasPrefix s ''"'' \<and> HasSuffix s ''"'' then
        (case slice s 1 (int (length s) - 1) of
           Inl e \<Rightarrow> Inl e
         | Inr t \<Rightarrow> Inr (VString t))
      else if s = ''true'' then Inr (VBool True)
      else if s = ''false'' then Inr (VBool False)
      else if HasPrefix s ''['' \<and> HasSuffix s '']'' then
        (case slice s 1 (int (length s) - 1) of
           Inl e \<Rightarrow> Inl e
         | Inr t \<Rightarrow>
             (let content = TrimSpace t in
              if content = [] then Inr (VInts [])
              else (case parseLiteral_ints (Split content '','') [] of
                      Inl e \<Rightarrow> Inl e
                    | Inr result \<Rightarrow> Inr (VInts result))))
      else (case Atoi (TrimSpace s) of
              Some i \<Rightarrow> Inr (VInt i)
            | None \<Rightarrow>
                (case pf (TrimSpace s) of
                   Some f \<Rightarrow> Inr (VFloat f)
                 | None \<Rightarrow> Inl (Error (''unsupported literal: '' @ s)))))\<close>

subsection \<open>parseDoCall\<close>

text \<open>The loop over the argument tokens, with the map \<^verbatim>\<open>action\<close> as state.\<close>

fun parseDoCall_args ::
  "(string \<Rightarrow> 'f option) \<Rightarrow> string list \<Rightarrow> 'f Action \<Rightarrow> error + 'f Action" where
  "parseDoCall_args pf [] action = Inr action"
| "parseDoCall_args pf (part # parts) action =
     (case SplitN part ''='' 2 of
        [k, v] \<Rightarrow>
          (let key = TrimSpace k; valStr = TrimSpace v in
           case parseLiteral pf valStr of
             Inl (Error e) \<Rightarrow> Inl (Error (''invalid value for '' @ key @ '': '' @ e))
           | Inl (Panic e) \<Rightarrow> Inl (Panic e)
           | Inr val \<Rightarrow> parseDoCall_args pf parts (action(key \<mapsto> val)))
      | _ \<Rightarrow> Inl (Error (''invalid argument: '' @ part)))"

definition parseDoCall :: "(string \<Rightarrow> 'f option) \<Rightarrow> string \<Rightarrow> error + 'f Action" where
  "parseDoCall pf expr =
     (if \<not> HasPrefix expr ''do('' \<or> \<not> HasSuffix expr '')'' then
        Inl (Error ''invalid do() syntax'')
      else
        let body = TrimSuffix (TrimPrefix expr ''do('') '')'';
            action = [''_metadata'' \<mapsto> VString ''do'']
        in if TrimSpace body = [] then Inr action
           else parseDoCall_args pf (Split body '', '') action)"

subsection \<open>parseFinishMessage\<close>

text \<open>
  The regular expression \<^verbatim>\<open>message="((?:\\.|[^"])*)"\<close>, matched as Go's
  \<^verbatim>\<open>regexp\<close> does: leftmost start, and among the matches at that start the one a
  backtracking search finds first (the left alternative before the right one, one more
  iteration of the star before leaving it). \<open>messageRe_group s\<close> matches
  \<^verbatim>\<open>((?:\\.|[^"])*)"\<close> at the head of \<open>s\<close> and returns the captured text:
  at a backslash followed by a character other than newline it first tries the escape
  pair, then a single character other than the quote, then the closing quote.
  The characters that matter here are ASCII, so matching bytes and matching UTF-8 runes
  give the same text.
\<close>

fun messageRe_group :: "string \<Rightarrow> string option" where
  "messageRe_group [] = None"
| "messageRe_group (c # cs) =
     (case (if c = CHR 0x5C then
              (case cs of
                 [] \<Rightarrow> None
               | d # ds \<Rightarrow>
                   if d \<noteq> CHR 0x0A then map_option (\<lambda>r. c # d # r) (messageRe_group ds)
                   else None)
            else None) of
        Some r \<Rightarrow> Some r
      | None \<Rightarrow>
          if c \<noteq> CHR 0x22 then map_option (\<lambda>r. c # r) (messageRe_group cs)
          else Some [])"

text \<open>\<^verbatim>\<open>messageRe.FindStringSubmatch\<close>: the match and its group, or \<^verbatim>\<open>nil\<close>.\<close>

fun messageRe_FindStringSubmatch :: "string \<Rightarrow> string list" where
  \<open>messageRe_FindStringSubmatch [] = []\<close>
| \<open>messageRe_FindStringSubmatch (c # cs) =
     (if HasPrefix (c # cs) ''message="'' then
        (case messageRe_group (drop (length ''message="'') (c # cs)) of
           Some g \<Rightarrow> [''message="'' @ g @ ''"'', g]
         | None \<Rightarrow> messageRe_FindStringSubmatch cs)
      else messageRe_FindStringSubmatch cs)\<close>

definition parseFinishMessage :: "string \<Rightarrow> error + string" where
  "parseFinishMessage s =
     (let matches = messageRe_FindStringSubmatch s in
      if length matches < 2 then Inl (Error ''message not found'')
      else Inr (matches ! 1))"

subsection \<open>ParseAction\<close>

definition ParseAction :: "(string \<Rightarrow> 'f option) \<Rightarrow> string \<Rightarrow> error + 'f Action" where
  "ParseAction pf rawActionStr0 =
     (let rawActionStr = TrimSpace rawActionStr0 in
      if HasPrefix rawActionStr ''do('' then
        (case parseDoCall pf rawActionStr of
           Inl (Error e) \<Rightarrow> Inl (Error (''failed to parse do() action: '' @ e))
         | Inl (Panic e) \<Rightarrow> Inl (Panic e)
         | Inr action \<Rightarrow> Inr action)
      else if HasPrefix rawActionStr ''finish'' then
        (case parseFinishMessage rawActionStr of
           Inl e \<Rightarrow> Inl e
         | Inr msg \<Rightarrow> Inr [''_metadata'' \<mapsto> VString ''finish'', ''message'' \<mapsto> VString msg])
      else Inl (Error (''failed to parse action: '' @ rawActionStr)))"


section \<open>The model client: live segmentation and the split of the full response\<close>

text \<open>The index expression \<^verbatim>\<open>xs[i]\<close>; Go panics when \<open>i\<close> is out of range.\<close>

definition index :: "'a list \<Rightarrow> nat \<Rightarrow> error + 'a" where
  "index xs i = (if i < length xs then Inr (xs ! i) else Inl (Panic ''index out of range''))"

subsection \<open>parseResponse\<close>

text \<open>The split \<^verbatim>\<open>parts := strings.SplitN(content, marker, 2)\<close> of rules 1 and 2.\<close>

definition splitAtMarker :: "string \<Rightarrow> string \<Rightarrow> error + string \<times> string" where
  "splitAtMarker content marker =
     (let parts = SplitN content marker 2 in
      case index parts 0 of
        Inl e \<Rightarrow> Inl e
      | Inr p0 \<Rightarrow>
          (case index parts 1 of
             Inl e \<Rightarrow> Inl e
           | Inr p1 \<Rightarrow> Inr (TrimSpace p0, marker @ p1)))"

definition parseResponse :: "string \<Rightarrow> error + string \<times> string" where
  "parseResponse content =
     (if Contains content ''finish(message='' then splitAtMarker content ''finish(message=''
      else if Contains content ''do(action='' then splitAtMarker content ''do(action=''
      else if Contains content ''<answer>'' then
        (let parts = SplitN content ''<answer>'' 2 in
         case index parts 0 of
           Inl e \<Rightarrow> Inl e
         | Inr p0 \<Rightarrow>
             (case index parts 1 of
                Inl e \<Rightarrow> Inl e
              | Inr p1 \<Rightarrow>
                  Inr (TrimSpace (ReplaceAll (ReplaceAll p0 ''<think>'' []) ''</think>'' []),
                       TrimSpace (ReplaceAll p1 ''</answer>'' []))))
      else Inr ([], content))"

subsection \<open>Request: the loop over the stream\<close>

text \<open>
  What \<^verbatim>\<open>stream.Recv()\<close> returns: a response with the delta contents of its choices,
  or an error; the end of the list is \<^verbatim>\<open>io.EOF\<close>. The state of the loop is the local
  variables of \<^verbatim>\<open>Request\<close>, and \<open>printed\<close> collects the arguments of the calls of
  \<^verbatim>\<open>fmt.Print\<close> in order. Clock readings are not modelled: \<open>timeToFirstTokenSet\<close>
  and \<open>timeToThinkingEndSet\<close> say whether the pointer is non-nil.
\<close>

datatype recv = Resp "string list" | RecvErr string

record live =
  rawContent :: string
  thinkingBuf :: string
  inActionPhase :: bool
  firstTokenReceived :: bool
  timeToFirstTokenSet :: bool
  timeToThinkingEndSet :: bool
  printed :: "string list"

definition live_init :: live where
  "live_init =
     \<lparr>rawContent = [], thinkingBuf = [], inActionPhase = False, firstTokenReceived = False,
      timeToFirstTokenSet = False, timeToThinkingEndSet = False, printed = []\<rparr>"

definition actionMarkers :: "string list" where
  "actionMarkers = [''finish(message='', ''do(action='']"

text \<open>The first marker of the list that the buffer contains (the loop with \<^verbatim>\<open>break\<close>).\<close>

definition findMarker :: "string \<Rightarrow> string option" where
  "findMarker buf = find (Contains buf) actionMarkers"

text \<open>Whether the buffer ends with \<^verbatim>\<open>marker[:i]\<close> for some \<open>1 \<le> i < len(marker)\<close>.\<close>

definition isPotentialMarker :: "string \<Rightarrow> bool" where
  "isPotentialMarker buf =
     list_ex (\<lambda>marker. list_ex (\<lambda>i. HasSuffix buf (take i marker)) [1..<length marker])
       actionMarkers"

text \<open>The body of the loop for a non-empty delta.\<close>

definition onDelta :: "live \<Rightarrow> string \<Rightarrow> error + live" where
  "onDelta st delta =
     (let st1 = st\<lparr>rawContent := rawContent st @ delta,
                   timeToFirstTokenSet := True, firstTokenReceived := True\<rparr>
      in if inActionPhase st1 then Inr st1
         else
           let thinkingBufStr = thinkingBuf st1 @ delta;
               st2 = st1\<lparr>thinkingBuf := thinkingBufStr\<rparr>
           in case findMarker thinkingBufStr of
                Some marker \<Rightarrow>
                  (case index (SplitN thinkingBufStr marker 2) 0 of
                     Inl e \<Rightarrow> Inl e
                   | Inr thinkingPart \<Rightarrow>
                       Inr (st2\<lparr>printed := printed st2 @ [thinkingPart],
                                inActionPhase := True, timeToThinkingEndSet := True\<rparr>))
              | None \<Rightarrow>
                  if isPotentialMarker thinkingBufStr then Inr st2
                  else Inr (st2\<lparr>printed := printed st2 @ [thinkingBufStr],
                                thinkingBuf := []\<rparr>))"

fun Request_loop :: "recv list \<Rightarrow> live \<Rightarrow> error + live" where
  "Request_loop [] st = Inr st"
| "Request_loop (RecvErr e # rest) st = Inl (Error e)"
| "Request_loop (Resp choices # rest) st =
     (case choices of
        [] \<Rightarrow> Request_loop rest st
      | delta # _ \<Rightarrow>
          if delta = [] then Request_loop rest st
          else (case onDelta st delta of
                  Inl e \<Rightarrow> Inl e
                | Inr st' \<Rightarrow> Request_loop rest st'))"

record ModelResponse =
  Thinking :: string
  Action :: string
  RawContent :: string
  TimeToFirstTokenSet :: bool
  TimeToThinkingEndSet :: bool

text \<open>
  \<^verbatim>\<open>Request\<close>, given what \<^verbatim>\<open>CreateChatCompletionStream\<close> returned: the response
  and the text printed on the way.
\<close>

definition Request :: "error + recv list \<Rightarrow> error + ModelResponse \<times> string list" where
  "Request stream =
     (case stream of
        Inl e \<Rightarrow> Inl e
      | Inr evs \<Rightarrow>
          (case Request_loop evs live_init of
             Inl e \<Rightarrow> Inl e
           | Inr st \<Rightarrow>
               (case parseResponse (rawContent st) of
                  Inl e \<Rightarrow> Inl e
                | Inr (thinking, action) \<Rightarrow>
                    Inr (\<lparr>Thinking = thinking, Action = action, RawContent = rawContent st,
                          TimeToFirstTokenSet = timeToFirstTokenSet st,
                          TimeToThinkingEndSet = timeToThinkingEndSet st\<rparr>,
                         printed st))))"

text \<open>A stream that delivers the given chunks, one response with one choice each.\<close>

definition chunks :: "string list \<Rightarrow> recv list" where
  "chunks cs = map (\<lambda>c. Resp [c]) cs"

section \<open>Concrete inputs\<close>

text \<open>
  The examples below contain no floating-point token: every token that reaches
  \<^verbatim>\<open>strconv.ParseFloat\<close> in them is one it rejects, which is all \<open>noFloat\<close> says.
\<close>

definition noFloat :: "string \<Rightarrow> unit option" where
  "noFloat s = None"

section \<open>Writing an Action back as a do() expression\<close>









section \<open>Auxiliary notions\<close>

text \<open>The bytes of the white-space encodings, and those that begin or end one.\<close>

definition spaceBytes :: "char set" where
  "spaceBytes = (\<Union>q \<in> set spaceRunes. set q)"




text \<open>
  What holds of the state after the chunks \<open>cs\<close> have been consumed, where \<open>F\<close> is the
  whole stream, the chunks still to come included: the printed text is a prefix of the
  text received, outside the action phase the printed text and the buffer together are
  the text received, and the printed text does not end inside an occurrence of a marker
  in \<open>F\<close>.
\<close>

definition live_inv :: "live \<Rightarrow> string \<Rightarrow> string \<Rightarrow> bool" where
  "live_inv st p F \<longleftrightarrow>
     (\<exists>q. p = concat (printed st) @ q) \<and>
     (\<not> inActionPhase st \<longrightarrow> concat (printed st) @ thinkingBuf st = p) \<and>
     (\<forall>A M B. M \<in> set actionMarkers \<and> F = A @ M @ B \<longrightarrow>
        \<not> (length A < length (concat (printed st)) \<and>
           length (concat (printed st)) < length A + length M))"

text \<open>
  What an argument token contributes to the Action when the loop of \<^verbatim>\<open>parseDoCall\<close>
  accepts it, and the assignment \<^verbatim>\<open>action[key] = val\<close> that stores it.
\<close>

definition tokenPair :: "(string \<Rightarrow> 'f option) \<Rightarrow> string \<Rightarrow> (string \<times> 'f literal) option" where
  "tokenPair pf part =
     (case SplitN part ''='' 2 of
        [k, v] \<Rightarrow>
          (case parseLiteral pf (TrimSpace v) of
             Inl e \<Rightarrow> None
           | Inr x \<Rightarrow> Some (TrimSpace k, x))
      | _ \<Rightarrow> None)"

definition putArg :: "'f Action \<Rightarrow> string \<times> 'f literal \<Rightarrow> 'f Action" where
  "putArg m kv = m(fst kv \<mapsto> snd kv)"



section \<open>Facts about the string functions\<close>

lemma HasPrefix_iff: "HasPrefix s p \<longleftrightarrow> (\<exists>t. s = p @ t)"
  unfolding HasPrefix_def
  by (metis append_eq_conv_conj append_take_drop_id)

lemma HasSuffix_iff: "HasSuffix s p \<longleftrightarrow> (\<exists>t. s = t @ p)"
proof
  assume "HasSuffix s p"
  then have "s = take (length s - length p) s @ p"
    unfolding HasSuffix_def by (metis append_take_drop_id)
  then show "\<exists>t. s = t @ p" ..
next
  assume "\<exists>t. s = t @ p"
  then show "HasSuffix s p" unfolding HasSuffix_def by auto
qed

subsection \<open>Index, Contains and SplitN\<close>

lemma Contains_iff: "Contains s sub \<longleftrightarrow> (\<exists>pre post. s = pre @ sub @ post)"
proof (induction s)
  case Nil
  show ?case by (auto simp: Contains_def)
next
  case (Cons c cs)
  show ?case
  proof (cases "HasPrefix (c # cs) sub")
    case True
    then obtain t where "c # cs = [] @ sub @ t" by (auto simp: HasPrefix_iff)
    then have "\<exists>pre post. c # cs = pre @ sub @ post" by blast
    with True show ?thesis by (simp add: Contains_def)
  next
    case False
    have "(\<exists>pre post. c # cs = pre @ sub @ post) \<longleftrightarrow> (\<exists>pre post. cs = pre @ sub @ post)"
    proof
      assume "\<exists>pre post. c # cs = pre @ sub @ post"
      then obtain pre post where d: "c # cs = pre @ sub @ post" by blast
      show "\<exists>pre post. cs = pre @ sub @ post"
      proof (cases pre)
        case Nil
        with d False show ?thesis by (auto simp: HasPrefix_iff)
      next
        case (Cons a pre')
        with d have "cs = pre' @ sub @ post" by simp
        then show ?thesis by blast
      qed
    next
      assume "\<exists>pre post. cs = pre @ sub @ post"
      then obtain pre post where "cs = pre @ sub @ post" by blast
      then have "c # cs = (c # pre) @ sub @ post" by simp
      then show "\<exists>pre post. c # cs = pre @ sub @ post" by blast
    qed
    moreover have "Contains (c # cs) sub \<longleftrightarrow> Contains cs sub"
      using False by (simp add: Contains_def)
    ultimately show ?thesis using Cons.IH by simp
  qed
qed

lemma Index_Some_first:
  "Index s sub = Some i \<Longrightarrow>
     s = take i s @ sub @ drop (i + length sub) s \<and> i \<le> length s \<and>
     (\<forall>pre post. s = pre @ sub @ post \<longrightarrow> i \<le> length pre)"
proof (induction s arbitrary: i)
  case Nil
  then show ?case by (simp split: if_splits)
next
  case (Cons c cs)
  show ?case
  proof (cases "HasPrefix (c # cs) sub")
    case True
    with Cons.prems have "i = 0" by simp
    moreover from True have "c # cs = sub @ drop (length sub) (c # cs)"
      unfolding HasPrefix_def by (metis append_take_drop_id)
    ultimately show ?thesis by simp
  next
    case False
    with Cons.prems obtain j where j: "Index cs sub = Some j" "i = Suc j" by auto
    from Cons.IH [OF j(1)] have
      d: "cs = take j cs @ sub @ drop (j + length sub) cs" and le: "j \<le> length cs" and
      m: "\<forall>pre post. cs = pre @ sub @ post \<longrightarrow> j \<le> length pre" by auto
    have "\<forall>pre post. c # cs = pre @ sub @ post \<longrightarrow> i \<le> length pre"
    proof (intro allI impI)
      fix pre post assume e: "c # cs = pre @ sub @ post"
      show "i \<le> length pre"
      proof (cases pre)
        case Nil
        with e False show ?thesis by (auto simp: HasPrefix_iff)
      next
        case (Cons a pre')
        with e have "cs = pre' @ sub @ post" by simp
        with m have "j \<le> length pre'" by blast
        with Cons j show ?thesis by simp
      qed
    qed
    moreover from d j have "c # cs = take i (c # cs) @ sub @ drop (i + length sub) (c # cs)"
      by simp
    ultimately show ?thesis using le j by simp
  qed
qed

lemma Index_first_occurrence:
  assumes "\<forall>pre' post'. pre @ sub @ post = pre' @ sub @ post' \<longrightarrow> length pre \<le> length pre'"
  shows "Index (pre @ sub @ post) sub = Some (length pre)"
proof -
  have "Contains (pre @ sub @ post) sub" by (auto simp: Contains_iff)
  then obtain i where i: "Index (pre @ sub @ post) sub = Some i" by (auto simp: Contains_def)
  from Index_Some_first [OF i] have
    d: "pre @ sub @ post = take i (pre @ sub @ post) @ sub @ drop (i + length sub) (pre @ sub @ post)"
    and m: "i \<le> length pre" by blast+
  from assms d have "length pre \<le> length (take i (pre @ sub @ post))" by blast
  then have "length pre \<le> i" by simp
  with m i show ?thesis by simp
qed

lemma SplitN_2:
  "SplitN s sep 2 = (case Index s sep of None \<Rightarrow> [s] | Some i \<Rightarrow> [take i s, drop (i + length sep) s])"
  by (simp add: numeral_2_eq_2 split: option.splits)


subsection \<open>TrimSpace\<close>



lemma TrimLeftSpace_None [simp]: "leadingSpace s = None \<Longrightarrow> TrimLeftSpace s = s"
  by (simp add: TrimLeftSpace.simps)

lemma TrimRightSpace_None [simp]: "trailingSpace s = None \<Longrightarrow> TrimRightSpace s = s"
  by (simp add: TrimRightSpace.simps)



lemma TrimRightSpace_prefix: "\<exists>t. s = TrimRightSpace s @ t \<and> set t \<subseteq> spaceBytes"
proof (induction s rule: TrimRightSpace.induct)
  case (1 s)
  show ?case
  proof (cases "trailingSpace s")
    case None
    then show ?thesis by simp
  next
    case (Some q)
    then have q: "HasSuffix s q" "q \<in> set spaceRunes" by (auto dest: trailingSpace_Some)
    from 1 Some obtain t where
      t: "take (length s - length q) s = TrimRightSpace (take (length s - length q) s) @ t"
      and ts: "set t \<subseteq> spaceBytes"
      by blast
    from q(1) have "s = take (length s - length q) s @ q"
      unfolding HasSuffix_def by (metis append_take_drop_id)
    with t have "s = TrimRightSpace (take (length s - length q) s) @ (t @ q)"
      by (metis append.assoc)
    moreover from q(2) ts have "set (t @ q) \<subseteq> spaceBytes" by (auto simp: spaceBytes_def)
    moreover from Some have "TrimRightSpace s = TrimRightSpace (take (length s - length q) s)"
      by (simp add: TrimRightSpace.simps [of s])
    ultimately show ?thesis by metis
  qed
qed

lemma TrimLeftSpace_suffix: "\<exists>t. s = t @ TrimLeftSpace s \<and> set t \<subseteq> spaceBytes"
proof (induction s rule: TrimLeftSpace.induct)
  case (1 s)
  show ?case
  proof (cases "leadingSpace s")
    case None
    then show ?thesis by simp
  next
    case (Some q)
    then have q: "HasPrefix s q" "q \<in> set spaceRunes" by (auto dest: leadingSpace_Some)
    from 1 Some obtain t where
      t: "drop (length q) s = t @ TrimLeftSpace (drop (length q) s)"
      and ts: "set t \<subseteq> spaceBytes"
      by blast
    from q(1) have "s = q @ drop (length q) s"
      unfolding HasPrefix_def by (metis append_take_drop_id)
    with t have "s = (q @ t) @ TrimLeftSpace (drop (length q) s)"
      by (metis append.assoc)
    moreover from q(2) ts have "set (q @ t) \<subseteq> spaceBytes" by (auto simp: spaceBytes_def)
    moreover from Some have "TrimLeftSpace s = TrimLeftSpace (drop (length q) s)"
      by (simp add: TrimLeftSpace.simps [of s])
    ultimately show ?thesis by metis
  qed
qed







lemma TrimSpace_decomp:
  "\<exists>l r. s = l @ TrimSpace s @ r \<and> set l \<subseteq> spaceBytes \<and> set r \<subseteq> spaceBytes"
proof -
  obtain l where "s = l @ TrimLeftSpace s" "set l \<subseteq> spaceBytes"
    using TrimLeftSpace_suffix by blast
  moreover obtain r where "TrimLeftSpace s = TrimSpace s @ r" "set r \<subseteq> spaceBytes"
    unfolding TrimSpace_def using TrimRightSpace_prefix by blast
  ultimately show ?thesis by metis
qed



lemma leadingSpace_Nil [simp]: "leadingSpace [] = None"
  by code_simp

lemma trailingSpace_Nil [simp]: "trailingSpace [] = None"
  by code_simp


subsection \<open>Splitting at a single character\<close>

lemma HasPrefix_single [simp]: "HasPrefix (c # cs) [x] \<longleftrightarrow> c = x"
  by (simp add: HasPrefix_def)

lemma HasPrefix_Nil_single [simp]: "\<not> HasPrefix [] [x]"
  by (simp add: HasPrefix_def)

lemma Index_single_None: "Index s [x] = None \<longleftrightarrow> x \<notin> set s"
  by (induction s) auto

lemma Index_single_first: "x \<notin> set k \<Longrightarrow> Index (k @ x # v) [x] = Some (length k)"
  by (induction k) auto

lemma SplitN_single_none: "x \<notin> set s \<Longrightarrow> SplitN s [x] 2 = [s]"
  using Index_single_None [of s x] by (simp add: SplitN_2)

lemma SplitN_single_first: "x \<notin> set k \<Longrightarrow> SplitN (k @ x # v) [x] 2 = [k, v]"
  by (simp add: SplitN_2 Index_single_first)

section \<open>Facts about parseLiteral\<close>

lemma HasSuffix_snoc_single [simp]: "HasSuffix (cs @ [c]) [x] \<longleftrightarrow> c = x"
  by (simp add: HasSuffix_def)

lemma HasSuffix_Nil_single [simp]: "\<not> HasSuffix [] [x]"
  by (simp add: HasSuffix_def)

lemma HasSuffix_one_single [simp]: "HasSuffix [c] [x] \<longleftrightarrow> c = x"
  by (simp add: HasSuffix_def)

lemma HasSuffix_Cons_snoc_single [simp]: "HasSuffix (a # cs @ [c]) [x] \<longleftrightarrow> c = x"
  using HasSuffix_snoc_single [of "a # cs" c x] by simp

lemma ends_decomp:
  assumes "HasPrefix s [x]" "HasSuffix s [y]" "s \<noteq> [x] \<or> x \<noteq> y"
  shows "\<exists>t. s = x # t @ [y]"
proof -
  from assms(1) obtain r where r: "s = x # r" by (cases s) auto
  show ?thesis
  proof (cases r rule: rev_cases)
    case Nil
    with r assms show ?thesis by (auto simp: HasSuffix_def)
  next
    case (snoc t z)
    with r assms(2) have "z = y"
      by (metis HasSuffix_snoc_single append_Cons)
    with r snoc show ?thesis by simp
  qed
qed

lemma slice_inner [simp]: "slice (x # t @ [y]) 1 (1 + int (length t)) = Inr t"
  by (simp add: slice_def)

lemma parseLiteral_ints_no_panic: "parseLiteral_ints ps acc \<noteq> Inl (Panic m)"
  by (induction ps arbitrary: acc) (auto split: option.splits)

lemma parseLiteral_quoted: \<open>parseLiteral pf (''"'' @ t @ ''"'') = Inr (VString t)\<close>
  by (simp add: parseLiteral_def)

lemma parseLiteral_Panic_iff:
  \<open>parseLiteral pf s = Inl (Panic m) \<longleftrightarrow> s = ''"'' \<and> m = ''slice bounds out of range''\<close>
proof (cases \<open>HasPrefix s ''"'' \<and> HasSuffix s ''"''\<close>)
  case True
  show ?thesis
  proof (cases \<open>s = ''"''\<close>)
    case True
    then show ?thesis by (auto simp: parseLiteral_def slice_def)
  next
    case False
    with True obtain t where "s = CHR 0x22 # t @ [CHR 0x22]"
      using ends_decomp [of s "CHR 0x22" "CHR 0x22"] by blast
    then show ?thesis using parseLiteral_quoted [of pf t] by simp
  qed
next
  case nq: False
  then have ne: \<open>s \<noteq> ''"''\<close> by auto
  show ?thesis
  proof (cases "HasPrefix s ''['' \<and> HasSuffix s '']''")
    case True
    then obtain t where t: "s = CHR ''['' # t @ '']''"
      using ends_decomp [of s "CHR ''[''" "CHR '']''"] by auto
    have "parseLiteral pf s \<noteq> Inl (Panic m)"
      using nq True parseLiteral_ints_no_panic [of "Split (TrimSpace t) '',''" "[]" m]
      unfolding parseLiteral_def t
      by (auto simp: Let_def split: sum.splits)
    with ne show ?thesis by simp
  next
    case False
    have "parseLiteral pf s \<noteq> Inl (Panic m)"
    proof (cases "s = ''true'' \<or> s = ''false''")
      case True
      then show ?thesis by (auto simp: parseLiteral_def HasPrefix_def)
    next
      case tf: False
      have q: \<open>(HasPrefix s ''"'' \<and> HasSuffix s ''"'') = False\<close>
        and b: "(HasPrefix s ''['' \<and> HasSuffix s '']'') = False"
        using nq False by simp_all
      from tf show ?thesis
        unfolding parseLiteral_def q b by (simp split: option.splits)
    qed
    with ne show ?thesis by simp
  qed
qed




lemma parseLiteral_VBool:
  "parseLiteral pf s = Inr (VBool b) \<Longrightarrow> s = (if b then ''true'' else ''false'')"
  by (auto simp: parseLiteral_def Let_def split: if_splits sum.splits option.splits)

section \<open>Decimal integers\<close>



















section \<open>Split and Join\<close>



lemma Index_None_eq: "Index s sub = None \<longleftrightarrow> \<not> Contains s sub"
  by (simp add: Contains_def)











section \<open>Literals written and read again\<close>





















lemma HasPrefix_Cons_single: "HasPrefix (c # cs) [x] \<longleftrightarrow> c = x"
  by simp

lemma parseLiteral_bracket:
  "parseLiteral pf (CHR ''['' # t @ '']'') =
     (let content = TrimSpace t in
      if content = [] then Inr (VInts [])
      else (case parseLiteral_ints (Split content '','') [] of
              Inl e \<Rightarrow> Inl e
            | Inr result \<Rightarrow> Inr (VInts result)))"
proof -
  have "CHR ''['' # t @ '']'' \<noteq> ''true''" "CHR ''['' # t @ '']'' \<noteq> ''false''" by auto
  then show ?thesis
    unfolding parseLiteral_def by (simp del: append.simps add: HasPrefix_def)
qed










lemma parseLiteral_float:
  assumes \<open>\<not> (HasPrefix s ''"'' \<and> HasSuffix s ''"'')\<close> "s \<noteq> ''true''" "s \<noteq> ''false''"
    "\<not> (HasPrefix s ''['' \<and> HasSuffix s '']'')"
    "Atoi (TrimSpace s) = None" "pf (TrimSpace s) = Some f"
  shows "parseLiteral pf s = Inr (VFloat f)"
proof -
  have q: \<open>(HasPrefix s ''"'' \<and> HasSuffix s ''"'') = False\<close>
    and b: "(HasPrefix s ''['' \<and> HasSuffix s '']'') = False"
    using assms(1,4) by simp_all
  from assms(2,3,5,6) show ?thesis
    unfolding parseLiteral_def q b by simp
qed

section \<open>The argument loop as a fold over accepted tokens\<close>

lemma putArg_pair: "putArg m (k, x) = m(k \<mapsto> x)"
  by (simp add: putArg_def)

lemma parseDoCall_args_Some:
  "tokenPair pf part = Some (k, x) \<Longrightarrow>
   parseDoCall_args pf (part # parts) action = parseDoCall_args pf parts (action(k \<mapsto> x))"
  by (auto simp: tokenPair_def Let_def split: list.splits sum.splits)




text \<open>
  The loop stops at the first token that is not accepted. When that token has no
  \<^verbatim>\<open>=\<close> or its value is rejected with an error, the error of the loop quotes the token
  or carries the error of the literal parser.
\<close>

lemma parseDoCall_args_skip:
  "map (tokenPair pf) good = map Some kvs \<Longrightarrow>
   parseDoCall_args pf (good @ rest) action =
     parseDoCall_args pf rest (foldl putArg action kvs)"
proof (induction good arbitrary: action kvs)
  case Nil
  then show ?case by simp
next
  case (Cons part good)
  then obtain k x kvs' where kvs: "kvs = (k, x) # kvs'" "tokenPair pf part = Some (k, x)"
    "map (tokenPair pf) good = map Some kvs'"
    by (cases kvs) auto
  have "parseDoCall_args pf ((part # good) @ rest) action =
      parseDoCall_args pf (good @ rest) (action(k \<mapsto> x))"
    using parseDoCall_args_Some [OF kvs(2)] by (simp only: append_Cons)
  also have "\<dots> = parseDoCall_args pf rest (foldl putArg (action(k \<mapsto> x)) kvs')"
    using kvs(3) by (rule Cons.IH)
  also have "foldl putArg (action(k \<mapsto> x)) kvs' = foldl putArg action kvs"
    unfolding kvs(1) by (simp only: foldl_Cons putArg_pair)
  finally show ?case .
qed

lemma parseDoCall_args_first_bad:
  assumes "map (tokenPair pf) good = map Some kvs"
  shows "(CHR ''='' \<notin> set bad \<longrightarrow>
            parseDoCall_args pf (good @ bad # rest) action =
              Inl (Error (''invalid argument: '' @ bad))) \<and>
         (\<forall>k v e. SplitN bad ''='' 2 = [k, v] \<and> parseLiteral pf (TrimSpace v) = Inl (Error e) \<longrightarrow>
            parseDoCall_args pf (good @ bad # rest) action =
              Inl (Error (''invalid value for '' @ TrimSpace k @ '': '' @ e)))"
  unfolding parseDoCall_args_skip [OF assms]
  by (auto simp: SplitN_single_none Let_def)

lemma Split_parts_sub: "sep \<noteq> [] \<Longrightarrow> p \<in> set (Split s sep) \<Longrightarrow> \<exists>l r. s = l @ p @ r"
proof (induction s sep arbitrary: p rule: Split.induct)
  case (1 s sep)
  show ?case
  proof (cases "Index s sep")
    case None
    with "1.prems" have "p = s" by (simp add: Split.simps [of s])
    then have "s = [] @ p @ []" by simp
    then show ?thesis by blast
  next
    case (Some i)
    with "1.prems" have "p = take i s \<or> p \<in> set (Split (drop (i + length sep) s) sep)"
      by (simp add: Split.simps [of s])
    then show ?thesis
    proof
      assume "p = take i s"
      then have "s = [] @ p @ drop i s" by simp
      then show ?thesis by blast
    next
      assume "p \<in> set (Split (drop (i + length sep) s) sep)"
      with "1.IH" [OF Some] "1.prems"(1) obtain l r where
        "drop (i + length sep) s = l @ p @ r" by blast
      then have "s = (take (i + length sep) s @ l) @ p @ r"
        by (metis append.assoc append_take_drop_id)
      then show ?thesis by blast
    qed
  qed
qed

lemma parseLiteral_ints_Error:
  "parseLiteral_ints ps acc = Inl (Error e) \<Longrightarrow>
     \<exists>p \<in> set ps. e = ''invalid int in array: '' @ p"
  by (induction ps arbitrary: acc) (auto split: option.splits)

text \<open>The error of the literal parser quotes the token, or the piece of the array.\<close>

lemma parseLiteral_Error:
  assumes "parseLiteral pf s = Inl (Error e)"
  shows "e = ''unsupported literal: '' @ s \<or>
         (\<exists>p l r. e = ''invalid int in array: '' @ p \<and> s = l @ p @ r)"
proof (cases "HasPrefix s ''['' \<and> HasSuffix s '']''")
  case True
  then obtain t where t: "s = CHR ''['' # t @ '']''"
    using ends_decomp [of s "CHR ''[''" "CHR '']''"] by auto
  with assms have "parseLiteral_ints (Split (TrimSpace t) '','') [] = Inl (Error e)"
    by (auto simp: parseLiteral_bracket Let_def split: if_splits sum.splits)
  then obtain p where p: "p \<in> set (Split (TrimSpace t) '','')" "e = ''invalid int in array: '' @ p"
    using parseLiteral_ints_Error by blast
  from Split_parts_sub [OF _ p(1)] obtain l r where "TrimSpace t = l @ p @ r" by auto
  moreover obtain l' r' where "t = l' @ TrimSpace t @ r'" using TrimSpace_decomp by blast
  ultimately have "s = (CHR ''['' # l' @ l) @ p @ (r @ r' @ '']'')" using t by simp
  with p(2) show ?thesis by blast
next
  case False
  with assms show ?thesis
    by (auto simp: parseLiteral_def slice_def split: if_splits option.splits sum.splits)
qed

section \<open>The literal parser on the token that is one double quote\<close>

lemma TrimSpace_do_quote: \<open>TrimSpace ''do(a=")'' = ''do(a=")''\<close>
  by code_simp

lemma TrimSpace_a_quote: \<open>TrimSpace ''a="'' = ''a="''\<close>
  by code_simp

lemma Split_a_quote: \<open>Split ''a="'' '', '' = [''a="'']\<close>
  by code_simp

lemma SplitN_a_quote: \<open>SplitN ''a="'' ''='' 2 = [''a'', ''"'']\<close>
  by code_simp

lemma TrimSpace_a: \<open>TrimSpace ''a'' = ''a''\<close>
  by code_simp

lemma TrimSpace_quote: \<open>TrimSpace ''"'' = ''"''\<close>
  by code_simp

lemma parseLiteral_quote: \<open>parseLiteral pf ''"'' = Inl (Panic ''slice bounds out of range'')\<close>
  by (simp add: parseLiteral_def HasPrefix_def HasSuffix_def slice_def)

text \<open>The loop panics only on a token whose trimmed value is the lone double quote.\<close>

lemma parseDoCall_args_Panic:
  "parseDoCall_args pf parts action = Inl (Panic m) \<Longrightarrow>
     \<exists>part \<in> set parts. \<exists>k v. SplitN part ''='' 2 = [k, v] \<and> TrimSpace v = [CHR 0x22]"
proof (induction parts arbitrary: action)
  case Nil
  then show ?case by simp
next
  case (Cons part parts)
  show ?case
  proof (cases "tokenPair pf part")
    case (Some kx)
    obtain k x where "kx = (k, x)" by (cases kx)
    with Some Cons.prems have "parseDoCall_args pf parts (action(k \<mapsto> x)) = Inl (Panic m)"
      by (simp del: parseDoCall_args.simps add: parseDoCall_args_Some)
    from Cons.IH [OF this] show ?thesis by auto
  next
    case None
    with Cons.prems obtain k v m' where "SplitN part ''='' 2 = [k, v]"
      "parseLiteral pf (TrimSpace v) = Inl (Panic m')"
      by (auto simp: tokenPair_def Let_def split: list.splits sum.splits error.splits)
    then show ?thesis by (auto simp: parseLiteral_Panic_iff)
  qed
qed

lemma parseFinishMessage_no_panic: "parseFinishMessage s \<noteq> Inl (Panic m)"
  by (simp add: parseFinishMessage_def Let_def)

text \<open>
  ParseAction panics only on a do() expression one of whose argument values is the lone
  double quote; every other input gives an Action or an error.
\<close>

lemma ParseAction_Panic:
  assumes "ParseAction pf raw = Inl (Panic m)"
  shows "HasPrefix (TrimSpace raw) ''do('' \<and>
         (\<exists>part \<in> set (Split (TrimSuffix (TrimPrefix (TrimSpace raw) ''do('') '')'') '', '').
            \<exists>k v. SplitN part ''='' 2 = [k, v] \<and> TrimSpace v = [CHR 0x22])"
proof (cases "HasPrefix (TrimSpace raw) ''do(''")
  case True
  with assms have "parseDoCall pf (TrimSpace raw) = Inl (Panic m)"
    by (auto simp: ParseAction_def split: sum.splits error.splits)
  then have "parseDoCall_args pf
      (Split (TrimSuffix (TrimPrefix (TrimSpace raw) ''do('') '')'') '', '')
      [''_metadata'' \<mapsto> VString ''do''] = Inl (Panic m)"
    by (auto simp: parseDoCall_def Let_def split: if_splits)
  from parseDoCall_args_Panic [OF this] True show ?thesis by blast
next
  case False
  with assms show ?thesis
    using parseFinishMessage_no_panic [of "TrimSpace raw" m]
    by (auto simp: ParseAction_def Let_def split: if_splits sum.splits)
qed

text \<open>
  C1. The parsing core is claimed to return a value or an error on every input. The
  value token \<^verbatim>\<open>"\<close> passes both the prefix and the suffix test of the quoted-string
  rule, and the slice \<^verbatim>\<open>s[1:len(s)-1]\<close> is then \<^verbatim>\<open>s[1:0]\<close>: the parser panics, and
  so does \<^verbatim>\<open>ParseAction\<close> on \<^verbatim>\<open>do(a=")\<close>.
\<close>

theorem ParseAction_panics_on_lone_quote:
  \<open>ParseAction pf ''do(a=")'' = Inl (Panic ''slice bounds out of range'')\<close>
  by (simp add: ParseAction_def TrimSpace_do_quote parseDoCall_def HasPrefix_def HasSuffix_def
      TrimPrefix_def TrimSuffix_def TrimSpace_a_quote Split_a_quote SplitN_a_quote
      TrimSpace_a TrimSpace_quote parseLiteral_quote)

section \<open>Inputs that are neither a do() nor a finish() call\<close>





section \<open>Marker priority in parseResponse\<close>

lemma splitAtMarker_Index:
  "Index content marker = Some i \<Longrightarrow>
   splitAtMarker content marker =
     Inr (TrimSpace (take i content), marker @ drop (i + length marker) content)"
  by (simp add: splitAtMarker_def SplitN_2 index_def)

text \<open>The index expressions of \<^verbatim>\<open>parseResponse\<close> are always in range.\<close>

lemma splitAtMarker_total:
  "Contains content marker \<Longrightarrow> \<exists>t a. splitAtMarker content marker = Inr (t, a)"
  by (auto simp: Contains_def splitAtMarker_Index)

lemma parseResponse_total: "\<exists>t a. parseResponse content = Inr (t, a)"
proof -
  have "\<exists>t a. (let parts = SplitN content ''<answer>'' 2 in
         case index parts 0 of
           Inl e \<Rightarrow> Inl e
         | Inr p0 \<Rightarrow>
             (case index parts 1 of
                Inl e \<Rightarrow> Inl e
              | Inr p1 \<Rightarrow>
                  Inr (TrimSpace (ReplaceAll (ReplaceAll p0 ''<think>'' []) ''</think>'' []),
                       TrimSpace (ReplaceAll p1 ''</answer>'' [])))) = Inr (t, a)"
    if "Contains content ''<answer>''"
    using that by (auto simp: Contains_def SplitN_2 index_def)
  then show ?thesis
    unfolding parseResponse_def using splitAtMarker_total by auto
qed

text \<open>
  C3. Whenever the full response contains \<^verbatim>\<open>finish(message=\<close>, the thinking text is
  the trimmed text before the first occurrence of that marker and the action is the text
  from that occurrence to the end, wherever \<^verbatim>\<open>do(action=\<close> occurs.
\<close>

theorem parseResponse_finish_before_do:
  assumes "Contains content ''finish(message=''"
  shows "\<exists>pre post.
           content = pre @ ''finish(message='' @ post \<and>
           (\<forall>pre' post'. content = pre' @ ''finish(message='' @ post' \<longrightarrow>
              length pre \<le> length pre') \<and>
           parseResponse content = Inr (TrimSpace pre, ''finish(message='' @ post)"
proof -
  let ?m = "''finish(message=''"
  from assms obtain i where i: "Index content ?m = Some i"
    by (auto simp: Contains_def)
  let ?pre = "take i content" and ?post = "drop (i + length ?m) content"
  from Index_Some_first [OF i] have
    "content = ?pre @ ?m @ ?post" and "i \<le> length content" and
    "\<forall>pre' post'. content = pre' @ ?m @ post' \<longrightarrow> i \<le> length pre'" by blast+
  moreover from \<open>i \<le> length content\<close> have "length ?pre = i" by simp
  moreover from assms i have "parseResponse content = Inr (TrimSpace ?pre, ?m @ ?post)"
    by (simp add: parseResponse_def splitAtMarker_Index)
  ultimately show ?thesis by metis
qed

theorem parseResponse_finish_before_do_witness:
  \<open>Contains ''tap do(action="Tap") finish(message="ok")'' ''finish(message='' \<and>
   Contains ''tap do(action="Tap") finish(message="ok")'' ''do(action='' \<and>
   (\<exists>pre post.
      ''tap do(action="Tap") finish(message="ok")'' = pre @ ''finish(message='' @ post \<and>
      (\<forall>pre' post'. ''tap do(action="Tap") finish(message="ok")'' =
           pre' @ ''finish(message='' @ post' \<longrightarrow> length pre \<le> length pre') \<and>
      parseResponse ''tap do(action="Tap") finish(message="ok")'' =
        Inr (TrimSpace pre, ''finish(message='' @ post)) \<and>
   parseResponse ''tap do(action="Tap") finish(message="ok")'' =
     Inr (''tap do(action="Tap")'', ''finish(message="ok")'')\<close>
proof -
  have c: \<open>Contains ''tap do(action="Tap") finish(message="ok")'' ''finish(message=''\<close>
    by code_simp
  have d: \<open>Contains ''tap do(action="Tap") finish(message="ok")'' ''do(action=''\<close>
    by code_simp
  have e: \<open>parseResponse ''tap do(action="Tap") finish(message="ok")'' =
     Inr (''tap do(action="Tap")'', ''finish(message="ok")'')\<close>
    by code_simp
  from parseResponse_finish_before_do [OF c] c d e show ?thesis by blast
qed

section \<open>Argument tokens and the equals sign\<close>

lemma TrimSpace_do_a_xy: \<open>TrimSpace ''do(a="x=y")'' = ''do(a="x=y")''\<close>
  by code_simp

lemma TrimSpace_a_xy: \<open>TrimSpace ''a="x=y"'' = ''a="x=y"''\<close>
  by code_simp

lemma Split_a_xy: \<open>Split ''a="x=y"'' '', '' = [''a="x=y"'']\<close>
  by code_simp

lemma SplitN_a_xy: \<open>SplitN ''a="x=y"'' ''='' 2 = [''a'', ''"x=y"'']\<close>
  by code_simp

lemma TrimSpace_xy: \<open>TrimSpace ''"x=y"'' = ''"x=y"''\<close>
  by code_simp

text \<open>
  C7. The claim is that a token with more than one \<^verbatim>\<open>=\<close> is not accepted. The token
  \<^verbatim>\<open>a="x=y"\<close> has two and is accepted: the split is \<^verbatim>\<open>SplitN(part, "=", 2)\<close>.
\<close>

theorem parseDoCall_two_equals_counterexample:
  \<open>ParseAction noFloat ''do(a="x=y")'' =
     Inr [''_metadata'' \<mapsto> VString ''do'', ''a'' \<mapsto> VString ''x=y'']\<close>
  by (simp add: ParseAction_def TrimSpace_do_a_xy parseDoCall_def HasPrefix_def HasSuffix_def
      TrimPrefix_def TrimSuffix_def TrimSpace_a_xy Split_a_xy SplitN_a_xy TrimSpace_a
      TrimSpace_xy parseLiteral_def slice_def)

text \<open>
  C7, as the code has it. When the loop reaches a token without \<^verbatim>\<open>=\<close> it returns the
  error that quotes the token. A token with one or more \<^verbatim>\<open>=\<close> is split at the first
  one only: the trimmed text before it is the key, the trimmed text after it (further
  \<^verbatim>\<open>=\<close> included) is the value token, and what happens next is what the literal
  parser says about that value token.
\<close>

theorem parseDoCall_args_equals:
  "(CHR ''='' \<notin> set part \<longrightarrow>
      parseDoCall_args pf (part # parts) action = Inl (Error (''invalid argument: '' @ part)))
   \<and>
   (CHR ''='' \<notin> set k \<longrightarrow>
      parseDoCall_args pf ((k @ ''='' @ v) # parts) action =
        (case parseLiteral pf (TrimSpace v) of
           Inl (Error e) \<Rightarrow> Inl (Error (''invalid value for '' @ TrimSpace k @ '': '' @ e))
         | Inl (Panic e) \<Rightarrow> Inl (Panic e)
         | Inr val \<Rightarrow> parseDoCall_args pf parts (action(TrimSpace k \<mapsto> val))))"
  by (simp add: SplitN_single_none SplitN_single_first Let_def)

theorem parseDoCall_args_equals_witness:
  \<open>CHR ''='' \<notin> set ''b'' \<and> CHR ''='' \<notin> set ''a'' \<and>
   parseDoCall_args noFloat [''b'', ''c=1''] [''_metadata'' \<mapsto> VString ''do''] =
     Inl (Error ''invalid argument: b'') \<and>
   parseDoCall_args noFloat [''a="x=y"''] [''_metadata'' \<mapsto> VString ''do''] =
     Inr [''_metadata'' \<mapsto> VString ''do'', ''a'' \<mapsto> VString ''x=y'']\<close>
  using parseDoCall_args_equals [where part = "''b''" and pf = noFloat and parts = "[''c=1'']"
      and action = "[''_metadata'' \<mapsto> VString ''do'']" and k = "''a''"]
    parseDoCall_args_equals [where pf = noFloat and parts = "[]"
      and action = "[''_metadata'' \<mapsto> VString ''do'']" and k = "''a''" and v = \<open>''"x=y"''\<close>]
  by (simp add: TrimSpace_a TrimSpace_xy parseLiteral_def HasPrefix_def HasSuffix_def slice_def)

section \<open>The finish() form\<close>








section \<open>The order of the literal rules\<close>

text \<open>
  C6. The first rule of the literal grammar is claimed to give, for a token that begins
  and ends with a double quote, the text between the quotes. The token that is one double
  quote begins and ends with it; the parser panics on it. On every longer quoted token
  the rule does give the text between the quotes (\<open>parseLiteral_quoted\<close>), strings come
  from quoted tokens only (\<open>parseLiteral_VString\<close>), and \<^verbatim>\<open>true\<close> and \<^verbatim>\<open>false\<close>
  give the booleans (\<open>parseLiteral_true\<close>, \<open>parseLiteral_false\<close>).
\<close>

theorem parseLiteral_quoted_rule_on_lone_quote:
  \<open>HasPrefix ''"'' ''"'' \<and> HasSuffix ''"'' ''"'' \<and>
   parseLiteral pf ''"'' = Inl (Panic ''slice bounds out of range'')\<close>
  by (simp add: parseLiteral_Panic_iff HasPrefix_def)

section \<open>Failure of a do() parse\<close>

lemma TrimSpace_do_quote_b: \<open>TrimSpace ''do(a=", b)'' = ''do(a=", b)''\<close>
  by code_simp

lemma TrimSpace_a_quote_b: \<open>TrimSpace ''a=", b'' = ''a=", b''\<close>
  by code_simp

lemma Split_a_quote_b: \<open>Split ''a=", b'' '', '' = [''a="'', ''b'']\<close>
  by code_simp

text \<open>
  C8. A do() expression with a malformed token is claimed to make ParseAction return an
  error that quotes the offending text. In \<^verbatim>\<open>do(a=", b)\<close> the second token has no
  \<^verbatim>\<open>=\<close>, but the loop panics on the value of the first token before it gets there.
  No Action is returned in any case.
\<close>

theorem ParseAction_malformed_after_lone_quote:
  \<open>Split ''a=", b'' '', '' = [''a="'', ''b''] \<and> CHR ''='' \<notin> set ''b'' \<and>
   ParseAction pf ''do(a=", b)'' = Inl (Panic ''slice bounds out of range'')\<close>
  by (simp add: ParseAction_def TrimSpace_do_quote_b parseDoCall_def HasPrefix_def HasSuffix_def
      TrimPrefix_def TrimSuffix_def TrimSpace_a_quote_b Split_a_quote_b SplitN_a_quote
      TrimSpace_a TrimSpace_quote parseLiteral_quote)

section \<open>Facts about the loop of Request\<close>

lemma Request_loop_append:
  "Request_loop (xs @ ys) st =
     (case Request_loop xs st of Inl e \<Rightarrow> Inl e | Inr st' \<Rightarrow> Request_loop ys st')"
proof (induction xs st rule: Request_loop.induct)
  case (1 st)
  show ?case by simp
next
  case (2 e rest st)
  show ?case by simp
next
  case (3 choices rest st)
  then show ?case by (auto split: list.splits sum.splits)
qed

lemma SplitN_2_index0: "index (SplitN s sep 2) 0 = Inr (case Index s sep of None \<Rightarrow> s | Some i \<Rightarrow> take i s)"
  by (simp add: SplitN_2 index_def split: option.splits)

lemma findMarker_Some:
  "findMarker buf = Some m \<Longrightarrow> m \<in> set actionMarkers \<and> Contains buf m"
  unfolding findMarker_def by (metis find_Some_iff nth_mem)

lemma findMarker_None:
  "findMarker buf = None \<longleftrightarrow> (\<forall>m \<in> set actionMarkers. \<not> Contains buf m)"
  unfolding findMarker_def by (auto simp: find_None_iff)

lemma isPotentialMarker_iff:
  "isPotentialMarker buf \<longleftrightarrow>
     (\<exists>m \<in> set actionMarkers. \<exists>i. 1 \<le> i \<and> i < length m \<and> HasSuffix buf (take i m))"
  unfolding isPotentialMarker_def list_ex_iff
  by (simp add: Bex_def)

text \<open>The three outcomes of one delta outside the action phase.\<close>

lemma onDelta_action: "inActionPhase st \<Longrightarrow>
  onDelta st delta = Inr (st\<lparr>rawContent := rawContent st @ delta,
                   timeToFirstTokenSet := True, firstTokenReceived := True\<rparr>)"
  by (simp add: onDelta_def)

lemma onDelta_marker:
  assumes "\<not> inActionPhase st" "findMarker (thinkingBuf st @ delta) = Some m"
    "Index (thinkingBuf st @ delta) m = Some i"
  shows "onDelta st delta =
    Inr (st\<lparr>rawContent := rawContent st @ delta, timeToFirstTokenSet := True,
            firstTokenReceived := True, thinkingBuf := thinkingBuf st @ delta,
            printed := printed st @ [take i (thinkingBuf st @ delta)],
            inActionPhase := True, timeToThinkingEndSet := True\<rparr>)"
  using assms by (simp add: onDelta_def Let_def SplitN_2_index0)

lemma onDelta_hold:
  assumes "\<not> inActionPhase st" "findMarker (thinkingBuf st @ delta) = None"
    "isPotentialMarker (thinkingBuf st @ delta)"
  shows "onDelta st delta =
    Inr (st\<lparr>rawContent := rawContent st @ delta, timeToFirstTokenSet := True,
            firstTokenReceived := True, thinkingBuf := thinkingBuf st @ delta\<rparr>)"
  using assms by (simp add: onDelta_def Let_def)

lemma onDelta_flush:
  assumes "\<not> inActionPhase st" "findMarker (thinkingBuf st @ delta) = None"
    "\<not> isPotentialMarker (thinkingBuf st @ delta)"
  shows "onDelta st delta =
    Inr (st\<lparr>rawContent := rawContent st @ delta, timeToFirstTokenSet := True,
            firstTokenReceived := True, thinkingBuf := [],
            printed := printed st @ [thinkingBuf st @ delta]\<rparr>)"
  using assms by (simp add: onDelta_def Let_def)

lemma onDelta_total: "\<exists>st'. onDelta st delta = Inr st'"
  by (simp add: onDelta_def Let_def SplitN_2_index0 split: option.splits)

lemma Request_loop_snoc:
  "Request_loop (chunks (cs @ [c])) st =
     (case Request_loop (chunks cs) st of
        Inl e \<Rightarrow> Inl e
      | Inr st' \<Rightarrow> if c = [] then Inr st' else onDelta st' c)"
  by (simp add: chunks_def Request_loop_append split: sum.splits)

lemma Request_loop_chunks_total: "\<exists>st'. Request_loop (chunks cs) st = Inr st'"
proof (induction cs rule: rev_induct)
  case Nil
  show ?case by (simp add: chunks_def)
next
  case (snoc c cs)
  then obtain st1 where "Request_loop (chunks cs) st = Inr st1" by blast
  then show ?case using onDelta_total [of st1 c] by (simp add: Request_loop_snoc)
qed


section \<open>The live path never prints part of a marker\<close>

lemma marker_heads: "M \<in> set actionMarkers \<Longrightarrow> M1 \<in> set actionMarkers \<Longrightarrow>
  M1 \<noteq> [] \<and> hd M1 \<notin> set (tl M)"
  by (auto simp: actionMarkers_def)

lemma markers_no_overlap:
  assumes "M \<in> set actionMarkers" "M1 \<in> set actionMarkers"
    and eq: "A @ M @ B = A1 @ M1 @ B1"
    and lo: "length A < length A1" and hi: "length A1 < length A + length M"
  shows False
proof -
  from assms(1,2) have ne: "M1 \<noteq> []" and nin: "hd M1 \<notin> set (tl M)"
    using marker_heads by blast+
  let ?d = "length A1 - length A"
  from lo hi have d: "0 < ?d" "?d < length M" by auto
  have "(A1 @ M1 @ B1) ! length A1 = hd M1"
    using ne by (simp add: nth_append hd_conv_nth)
  moreover have "(A @ M @ B) ! length A1 = M ! ?d"
    using lo d by (simp add: nth_append)
  ultimately have "M ! ?d = hd M1" using eq by simp
  moreover from d have "M ! ?d = tl M ! (?d - 1)"
    by (cases M) (auto simp: nth_Cons')
  moreover from d have "?d - 1 < length (tl M)" by simp
  ultimately have "hd M1 \<in> set (tl M)" by (metis nth_mem)
  with nin show False ..
qed

lemma append_eq_longer:
  assumes "xs @ ys = A @ zs" "length A < length xs"
  shows "\<exists>us. xs = A @ us \<and> us \<noteq> [] \<and> us @ ys = zs"
  using assms by (auto simp: append_eq_append_conv2)

lemma append_eq_shorter:
  assumes "xs @ ys = A @ us" "length xs \<le> length A"
  shows "\<exists>vs. ys = vs @ us \<and> A = xs @ vs"
  using assms by (auto simp: append_eq_append_conv2)

lemma live_inv_init: "live_inv live_init [] F"
  by (simp add: live_inv_def live_init_def)

lemma live_inv_step:
  assumes inv: "live_inv st p (p @ c @ rest)" and step: "onDelta st c = Inr st'"
  shows "live_inv st' (p @ c) (p @ c @ rest)"
proof (cases "inActionPhase st")
  case True
  with step have "printed st' = printed st" "inActionPhase st'"
    by (auto simp: onDelta_action)
  with inv show ?thesis by (auto simp: live_inv_def)
next
  case False
  define P where "P = concat (printed st)"
  define buf where "buf = thinkingBuf st @ c"
  from inv False have "P @ thinkingBuf st = p" by (simp add: live_inv_def P_def)
  then have all: "P @ buf = p @ c" by (simp add: buf_def)
  from inv have old: "\<And>A M B. M \<in> set actionMarkers \<Longrightarrow> p @ c @ rest = A @ M @ B \<Longrightarrow>
        \<not> (length A < length P \<and> length P < length A + length M)"
    unfolding live_inv_def P_def by blast
  show ?thesis
  proof (cases "findMarker buf")
    case (Some m)
    then have m: "m \<in> set actionMarkers" "Contains buf m" by (auto dest: findMarker_Some)
    then obtain i where i: "Index buf m = Some i" by (auto simp: Contains_def)
    define pre where "pre = take i buf"
    define post where "post = drop (i + length m) buf"
    from Index_Some_first [OF i] have d: "buf = pre @ m @ post"
      unfolding pre_def post_def by blast
    from onDelta_marker [OF False] Some i step have
      pr: "printed st' = printed st @ [pre]" and ph: "inActionPhase st'"
      unfolding buf_def pre_def by auto
    have whole: "p @ c @ rest = (P @ pre) @ m @ (post @ rest)"
    proof -
      have "p @ c @ rest = (P @ buf) @ rest" using all by simp
      also have "\<dots> = (P @ pre) @ m @ (post @ rest)" by (simp add: d)
      finally show ?thesis .
    qed
    have "p @ c = (P @ pre) @ (m @ post)" using all d by simp
    then have pfx: "\<exists>q. p @ c = concat (printed st') @ q" using pr P_def by auto
    have "\<not> (length A < length (P @ pre) \<and> length (P @ pre) < length A + length M)"
      if "M \<in> set actionMarkers" "p @ c @ rest = A @ M @ B" for A M B
    proof
      assume "length A < length (P @ pre) \<and> length (P @ pre) < length A + length M"
      moreover from that(2) whole have "A @ M @ B = (P @ pre) @ m @ (post @ rest)"
        by simp
      ultimately show False using markers_no_overlap [OF that(1) m(1)] by blast
    qed
    with pfx ph pr show ?thesis by (simp add: live_inv_def P_def)
  next
    case None
    show ?thesis
    proof (cases "isPotentialMarker buf")
      case True
      from onDelta_hold [OF False] None True step have
        "printed st' = printed st" "thinkingBuf st' = buf"
        unfolding buf_def by auto
      with all inv show ?thesis by (auto simp: live_inv_def P_def)
    next
      case np: False
      from onDelta_flush [OF \<open>\<not> inActionPhase st\<close>] None np step have
        pr: "printed st' = printed st @ [buf]" and tb: "thinkingBuf st' = []"
        unfolding buf_def by auto
      define pc where "pc = p @ c"
      have all': "P @ buf = pc" using all by (simp add: pc_def)
      have "\<not> (length A < length pc \<and> length pc < length A + length M)"
        if M: "M \<in> set actionMarkers" and F: "p @ c @ rest = A @ M @ B" for A M B
      proof
        assume b: "length A < length pc \<and> length pc < length A + length M"
        from F have "pc @ rest = A @ (M @ B)" by (simp add: pc_def)
        with b obtain us where us: "pc = A @ us" "us \<noteq> []" "us @ rest = M @ B"
          using append_eq_longer by blast
        with b have ul: "0 < length us" "length us < length M" by auto
        from us(3) have "take (length us) (us @ rest) = take (length us) (M @ B)" by simp
        with ul have um: "us = take (length us) M" by simp
        have "length P \<le> length A"
        proof (rule ccontr)
          assume "\<not> length P \<le> length A"
          moreover have "length P \<le> length pc" using all' by (metis length_append le_add1)
          ultimately show False using old [OF M F] b by auto
        qed
        with all' us(1) obtain vs where "buf = vs @ us"
          using append_eq_shorter by blast
        then have "HasSuffix buf (take (length us) M)" using um by (auto simp: HasSuffix_iff)
        with M ul have "isPotentialMarker buf"
          unfolding isPotentialMarker_iff by (metis One_nat_def Suc_leI)
        with np show False ..
      qed
      then have "\<And>A M B. M \<in> set actionMarkers \<Longrightarrow> p @ c @ rest = A @ M @ B \<Longrightarrow>
        \<not> (length A < length (P @ buf) \<and> length (P @ buf) < length A + length M)"
        unfolding all' by blast
      with pr tb all show ?thesis by (auto simp: live_inv_def P_def)
    qed
  qed
qed

lemma live_inv_chunks:
  "Request_loop (chunks cs) live_init = Inr st \<Longrightarrow> live_inv st (concat cs) (concat cs @ rest)"
proof (induction cs arbitrary: st rest rule: rev_induct)
  case Nil
  then show ?case by (simp add: chunks_def live_inv_init)
next
  case (snoc c cs)
  obtain st1 where st1: "Request_loop (chunks cs) live_init = Inr st1"
    using Request_loop_chunks_total by blast
  from snoc.IH [OF st1, of "c @ rest"] have inv: "live_inv st1 (concat cs) (concat cs @ c @ rest)" .
  show ?case
  proof (cases "c = []")
    case True
    with snoc.prems st1 have "st = st1" by (simp add: Request_loop_snoc)
    with inv True show ?thesis by simp
  next
    case False
    with snoc.prems st1 have "onDelta st1 c = Inr st" by (simp add: Request_loop_snoc)
    from live_inv_step [OF inv this] show ?thesis by simp
  qed
qed


lemma do_marker_by_character:
  "\<forall>k \<in> set [0..<11].
     (case Request_loop (chunks (map (\<lambda>c. [c]) (take k ''do(action=''))) live_init of
        Inl e \<Rightarrow> False
      | Inr st \<Rightarrow> list_all (\<lambda>e. e = []) (printed st) \<and> (inActionPhase st \<longleftrightarrow> k = 10))"
  by code_simp

text \<open>
  C5. When the characters of \<^verbatim>\<open>do(action=\<close> arrive one at a time, every call of
  \<^verbatim>\<open>fmt.Print\<close> up to any point of the stream prints the empty text, and the action
  phase begins with the last character. In general, for any chunks and any continuation
  \<open>rest\<close> of the stream, the text printed so far is a prefix of the text received and
  does not end inside an occurrence of a marker in the stream: no marker is ever printed
  in part.
\<close>

theorem live_path_never_prints_part_of_marker:
  "(\<forall>k \<le> length ''do(action=''.
      \<exists>st. Request_loop (chunks (map (\<lambda>c. [c]) (take k ''do(action=''))) live_init = Inr st \<and>
           (\<forall>e \<in> set (printed st). e = []) \<and>
           (inActionPhase st \<longleftrightarrow> k = length ''do(action=''))
   \<and>
   (\<forall>cs rest A M B.
      M \<in> set actionMarkers \<and> concat cs @ rest = A @ M @ B \<longrightarrow>
      (\<exists>st. Request_loop (chunks cs) live_init = Inr st \<and>
            (\<exists>q. concat cs = concat (printed st) @ q) \<and>
            \<not> (length A < length (concat (printed st)) \<and>
               length (concat (printed st)) < length A + length M)))"
proof (intro conjI allI impI)
  fix k :: nat
  assume "k \<le> length ''do(action=''"
  then have "k \<in> set [0..<11]" by simp
  with do_marker_by_character have
    "case Request_loop (chunks (map (\<lambda>c. [c]) (take k ''do(action=''))) live_init of
        Inl e \<Rightarrow> False
      | Inr st \<Rightarrow> list_all (\<lambda>e. e = []) (printed st) \<and> (inActionPhase st \<longleftrightarrow> k = 10)"
    by blast
  then show "\<exists>st. Request_loop (chunks (map (\<lambda>c. [c]) (take k ''do(action=''))) live_init = Inr st \<and>
           (\<forall>e \<in> set (printed st). e = []) \<and>
           (inActionPhase st \<longleftrightarrow> k = length ''do(action='')"
    by (auto simp: list_all_iff split: sum.splits)
next
  fix cs :: "string list" and rest A M B :: string
  assume a: "M \<in> set actionMarkers \<and> concat cs @ rest = A @ M @ B"
  obtain st where st: "Request_loop (chunks cs) live_init = Inr st"
    using Request_loop_chunks_total by blast
  from live_inv_chunks [OF st, of rest] a st
  show "\<exists>st. Request_loop (chunks cs) live_init = Inr st \<and>
            (\<exists>q. concat cs = concat (printed st) @ q) \<and>
            \<not> (length A < length (concat (printed st)) \<and>
               length (concat (printed st)) < length A + length M)"
    unfolding live_inv_def by blast
qed

theorem live_path_never_prints_part_of_marker_witness:
  "(3::nat) \<le> length ''do(action='' \<and>
   (\<exists>st. Request_loop (chunks (map (\<lambda>c. [c]) (take 3 ''do(action=''))) live_init = Inr st \<and>
         (\<forall>e \<in> set (printed st). e = []) \<and>
         (inActionPhase st \<longleftrightarrow> (3::nat) = length ''do(action='')) \<and>
   ''do(action='' \<in> set actionMarkers \<and>
   concat [''ok do(ac'', ''tio''] @ ''n=1)'' = ''ok '' @ ''do(action='' @ ''1)'' \<and>
   (\<exists>st. Request_loop (chunks [''ok do(ac'', ''tio'']) live_init = Inr st \<and>
         (\<exists>q. concat [''ok do(ac'', ''tio''] = concat (printed st) @ q) \<and>
         \<not> (length ''ok '' < length (concat (printed st)) \<and>
            length (concat (printed st)) < length ''ok '' + length ''do(action=''))"
proof -
  have m: "''do(action='' \<in> set actionMarkers" by (simp add: actionMarkers_def)
  have e: "concat [''ok do(ac'', ''tio''] @ ''n=1)'' = ''ok '' @ ''do(action='' @ ''1)''"
    by simp
  have k: "(3::nat) \<le> length ''do(action=''" by simp
  from live_path_never_prints_part_of_marker have
    "\<exists>st. Request_loop (chunks (map (\<lambda>c. [c]) (take 3 ''do(action=''))) live_init = Inr st \<and>
         (\<forall>e \<in> set (printed st). e = []) \<and>
         (inActionPhase st \<longleftrightarrow> (3::nat) = length ''do(action='')"
    using k by blast
  moreover from live_path_never_prints_part_of_marker m e have
    "\<exists>st. Request_loop (chunks [''ok do(ac'', ''tio'']) live_init = Inr st \<and>
         (\<exists>q. concat [''ok do(ac'', ''tio''] = concat (printed st) @ q) \<and>
         \<not> (length ''ok '' < length (concat (printed st)) \<and>
            length (concat (printed st)) < length ''ok '' + length ''do(action='')"
    by blast
  ultimately show ?thesis using m e k by blast
qed

section \<open>The stream hello do(\<close>










section \<open>Round trip of a do() expression\<close>








subsection \<open>The map built by the loop\<close>



















end
